theory Spec2Isabelle
  imports Main "HOL-Library.Multiset" "HOL-Library.Sublist"
begin

section \<open>The semaphore-free executor of \<^verbatim>\<open>ocrmypdf/extra_plugins/semfree.py\<close>\<close>

text \<open>
  The executor divides the task arguments among worker processes before any of them starts.
  Each worker talks to the parent over its own pipe. The embedding has three parts: the
  partition (\<^verbatim>\<open>split_every\<close>, \<^verbatim>\<open>zip_longest\<close> and the filter on \<^verbatim>\<open>None\<close>), the worker
  (\<^verbatim>\<open>process_loop\<close>) and the parent (\<^verbatim>\<open>LambdaExecutor._execute\<close>).

  Effects are written as traces: every function returns the list of the events it causes, in
  program order, next to its outcome. What the operating system decides (which connection is
  ready, and what \<^verbatim>\<open>recv\<close> gives there) is an argument of the parent's loop.
\<close>

subsection \<open>Values, messages and events\<close>

text \<open>
  \<^verbatim>\<open>class MessageType(Enum)\<close> has three members. The tag of a message is one of them, or a
  string: log records travel under the literal \<^verbatim>\<open>'log'\<close>.
\<close>

datatype MessageType = exception | result | complete

datatype tag = Enum MessageType | Str string

text \<open>The fields of a \<^verbatim>\<open>logging.LogRecord\<close> that the executor or its callers read.\<close>

record LogRecord =
  name :: string
  levelno :: nat
  message :: string

text \<open>
  The second component of a message, and the argument of the result callback: \<^verbatim>\<open>None\<close>, a
  value returned by the task, an exception instance raised by it, or a log record.
\<close>

datatype ('r, 'e) pyobj = PyNone | Value 'r | Error 'e | Record LogRecord

type_synonym ('r, 'e) message = "tag \<times> ('r, 'e) pyobj"

text \<open>
  A call of the worker initializer gives the records it logs and, when it raises, the exception.
  A call \<^verbatim>\<open>task(*args)\<close> gives the records it logs and either the exception it raises
  (\<open>Inl\<close>, an instance of \<^verbatim>\<open>Exception\<close>, which is what \<^verbatim>\<open>except Exception\<close> catches) or the
  value it returns (\<open>Inr\<close>). The records are those that reach the handlers of the root logger:
  the ones that pass the level which \<^verbatim>\<open>root.setLevel(loglevel)\<close> has set.
\<close>

type_synonym 'e initializer = "LogRecord list \<times> 'e option"

type_synonym ('a, 'r, 'e) task = "'a \<Rightarrow> LogRecord list \<times> ('e + 'r)"

text \<open>
  The progress bar that \<^verbatim>\<open>with self.pbar_class(**progress_kwargs) as pbar\<close> binds is an
  object of the parent, named by a number as the processes are.

  The observable steps. The first five happen in a worker, the rest in the parent.
  \<open>Spawn i init level args\<close> is the creation of process \<open>i\<close> with the arguments handed to
  \<^verbatim>\<open>process_loop\<close>; the parent's end of its pipe carries the same index.
  \<open>TaskFinished v pbar\<close> is the call \<^verbatim>\<open>task_finished(v, pbar)\<close>.
\<close>

type_synonym pbar = nat

datatype ('a, 'r, 'e) event =
    ConfigureLogging nat
  | UserInit
  | TaskCall 'a
  | Send "('r, 'e) message"
  | Close
  | PbarEnter
  | PbarExit
  | TaskFinished "('r, 'e) pyobj" pbar
  | Spawn nat "'e initializer" nat "'a list"
  | Start nat
  | LoggerHandle string LogRecord
  | Terminate nat
  | Join nat

text \<open>Exceptions that leave \<^verbatim>\<open>_execute\<close>: one raised by a task, or a built-in one.\<close>

datatype 'e error = Exc 'e | TypeError | ValueError | AttributeError | NotImplementedError

text \<open>Prefixing the events of a step to the trace of what follows.\<close>

definition emit :: "'x list \<Rightarrow> 'x list \<times> 'y \<Rightarrow> 'x list \<times> 'y" where
  "emit evs p = (evs @ fst p, snd p)"

subsection \<open>The partition\<close>

text \<open>
  \<^verbatim>\<open>split_every(n, iterable)\<close> takes lists of \<open>n\<close> items from the iterator until one of them
  is empty (\<^verbatim>\<open>takewhile(bool, ...)\<close>). The worker count is a \<open>nat\<close>: \<^verbatim>\<open>islice\<close> refuses a
  negative count, and no caller passes one.

  \<^verbatim>\<open>zip_longest(*iterables)\<close> yields one tuple per round, made of the next item of every
  iterable or \<^verbatim>\<open>None\<close> for an exhausted one, until all are exhausted. An element of the task
  arguments is an \<open>option\<close>: \<open>None\<close> is Python's \<^verbatim>\<open>None\<close>, the fill value.
\<close>

function split_every :: "nat \<Rightarrow> 'a list \<Rightarrow> 'a list list" where
  "split_every n xs =
     (if take n xs = [] then [] else take n xs # split_every n (drop n xs))"
  by pat_completeness auto
termination
  by (relation "measure (\<lambda>(n, xs). length xs)") auto

declare split_every.simps [simp del]

function zip_longest :: "'a option list list \<Rightarrow> 'a option list list" where
  "zip_longest iterables =
     (if \<forall>it \<in> set iterables. it = [] then []
      else map (\<lambda>it. case it of [] \<Rightarrow> None | v # _ \<Rightarrow> v) iterables
             # zip_longest (map tl iterables))"
  by pat_completeness auto
termination
proof (relation "measure (\<lambda>its. sum_list (map length its))")
  show "wf (measure (\<lambda>its. sum_list (map length its)))" by simp
next
  fix iterables :: "'a option list list"
  assume "\<not> (\<forall>it \<in> set iterables. it = [])"
  then obtain it where "it \<in> set iterables" "it \<noteq> []" by blast
  then have "sum_list (map length (map tl iterables)) < sum_list (map length iterables)"
  proof (induction iterables)
    case Nil then show ?case by simp
  next
    case (Cons c cs)
    have le: "sum_list (map length (map tl cs)) \<le> sum_list (map length cs)"
      by (induction cs) (auto simp: le_diff_conv)
    show ?case
    proof (cases "c = []")
      case True
      with Cons show ?thesis by auto
    next
      case False
      then have "length (tl c) < length c" by (cases c) auto
      with le show ?thesis by simp
    qed
  qed
  then show "(map tl iterables, iterables) \<in> measure (\<lambda>its. sum_list (map length its))"
    by simp
qed

declare zip_longest.simps [simp del]

text \<open>\<^verbatim>\<open>worker_args = [args for args in chunk if args is not None]\<close>\<close>

definition worker_args :: "'a option list \<Rightarrow> 'a list" where
  "worker_args chunk = map the (filter (\<lambda>args. args \<noteq> None) chunk)"

text \<open>\<^verbatim>\<open>grouped_args = list(zip_longest(*list(split_every(max_workers, task_arguments))))\<close>\<close>

definition grouped_args :: "nat \<Rightarrow> 'a option list \<Rightarrow> 'a option list list" where
  "grouped_args max_workers task_arguments = zip_longest (split_every max_workers task_arguments)"

subsection \<open>The worker\<close>

text \<open>\<^verbatim>\<open>ConnectionLogHandler.enqueue\<close>: the record goes to the parent under the tag \<^verbatim>\<open>'log'\<close>.\<close>

definition ConnectionLogHandler_enqueue :: "LogRecord \<Rightarrow> ('a, 'r, 'e) event" where
  "ConnectionLogHandler_enqueue rec = Send (Str ''log'', Record rec)"

text \<open>
  The \<^verbatim>\<open>for args in task_args\<close> loop of \<^verbatim>\<open>process_loop\<close>. An exception ends the loop
  (\<^verbatim>\<open>break\<close>) after it has been sent.
\<close>

fun task_loop :: "('a, 'r, 'e) task \<Rightarrow> 'a list \<Rightarrow> ('a, 'r, 'e) event list" where
  "task_loop task [] = []"
| "task_loop task (args # rest) =
     (case task args of
        (logs, Inl e) \<Rightarrow>
          TaskCall args # map ConnectionLogHandler_enqueue logs @ [Send (Enum exception, Error e)]
      | (logs, Inr res) \<Rightarrow>
          TaskCall args # map ConnectionLogHandler_enqueue logs
            @ Send (Enum result, Value res) # task_loop task rest)"

text \<open>
  \<^verbatim>\<open>process_loop\<close>: the root logger gets the forwarding handler and the parent's level, the
  initializer runs, then the loop, then \<^verbatim>\<open>complete\<close> is sent and the connection closed. An
  exception of the initializer is not caught: it ends the function (second component
  \<open>Some e\<close>). The installation of the \<^verbatim>\<open>SIGBUS\<close> handler sends nothing and is left out.
\<close>

definition process_loop ::
  "'e initializer \<Rightarrow> nat \<Rightarrow> ('a, 'r, 'e) task \<Rightarrow> 'a list
     \<Rightarrow> ('a, 'r, 'e) event list \<times> 'e option" where
  "process_loop user_init loglevel task task_args =
     (let setup = [ConfigureLogging loglevel, UserInit]
                    @ map ConnectionLogHandler_enqueue (fst user_init)
      in case snd user_init of
           Some e \<Rightarrow> (setup, Some e)
         | None \<Rightarrow>
             (setup @ task_loop task task_args @ [Send (Enum complete, PyNone), Close], None))"

subsection \<open>The parent\<close>

text \<open>
  One object returned by \<^verbatim>\<open>wait(connections)\<close>: something that is not a \<^verbatim>\<open>Connection\<close>, or
  the connection of process \<open>c\<close> together with what \<^verbatim>\<open>recv()\<close> gives on it, a message or
  \<^verbatim>\<open>EOFError\<close>.
\<close>

datatype ('r, 'e) recv = EOFError | Msg tag "('r, 'e) pyobj"

datatype ('r, 'e) ready = NotConnection | Connection nat "('r, 'e) recv"

text \<open>
  The body of \<^verbatim>\<open>for result in wait(connections)\<close>. It returns the connections still active,
  or the exception that ends the run. \<^verbatim>\<open>connections.remove\<close> raises \<^verbatim>\<open>ValueError\<close> for a
  connection that is not in the list. The chain of \<^verbatim>\<open>if\<close>/\<^verbatim>\<open>elif\<close> has no \<^verbatim>\<open>else\<close>.
\<close>

fun for_ready ::
  "pbar \<Rightarrow> nat list \<Rightarrow> nat list \<Rightarrow> ('r, 'e) ready list
     \<Rightarrow> ('a, 'r, 'e) event list \<times> ('e error + nat list)" where
  "for_ready pbar processes connections [] = ([], Inr connections)"
| "for_ready pbar processes connections (NotConnection # rest) = ([], Inl NotImplementedError)"
| "for_ready pbar processes connections (Connection c EOFError # rest) =
     (if c \<in> set connections then for_ready pbar processes (remove1 c connections) rest
      else ([], Inl ValueError))"
| "for_ready pbar processes connections (Connection c (Msg msg_type msg) # rest) =
     (if msg_type = Enum result then
        emit [TaskFinished msg pbar] (for_ready pbar processes connections rest)
      else if msg_type = Str ''log'' then
        (case msg of
           Record rec \<Rightarrow> emit [LoggerHandle (name rec) rec] (for_ready pbar processes connections rest)
         | _ \<Rightarrow> ([], Inl AttributeError))
      else if msg_type = Enum complete then
        (if c \<in> set connections then for_ready pbar processes (remove1 c connections) rest
         else ([], Inl ValueError))
      else if msg_type = Enum exception then
        (map Terminate processes, Inl (case msg of Error e \<Rightarrow> Exc e | _ \<Rightarrow> TypeError))
      else for_ready pbar processes connections rest)"

text \<open>
  \<^verbatim>\<open>while connections:\<close>. Each element of \<open>waits\<close> is what one call of \<^verbatim>\<open>wait\<close> returns.
  \<^verbatim>\<open>wait\<close> blocks until something is ready: when \<open>waits\<close> is used up and connections remain,
  the loop never returns (\<open>None\<close>).
\<close>

fun receive_loop ::
  "pbar \<Rightarrow> nat list \<Rightarrow> nat list \<Rightarrow> ('r, 'e) ready list list
     \<Rightarrow> ('a, 'r, 'e) event list \<times> ('e error + unit) option" where
  "receive_loop pbar processes connections [] =
     (if connections = [] then ([], Some (Inr ())) else ([], None))"
| "receive_loop pbar processes connections (ready # later) =
     (if connections = [] then ([], Some (Inr ()))
      else case for_ready pbar processes connections ready of
             (evs, Inl err) \<Rightarrow> (evs, Some (Inl err))
           | (evs, Inr connections') \<Rightarrow> emit evs (receive_loop pbar processes connections' later))"

text \<open>
  The branch \<^verbatim>\<open>if use_threads and max_workers == 1\<close>: the tasks run in the caller. An
  exception of the task leaves the loop; \<^verbatim>\<open>task(*None)\<close> is a \<^verbatim>\<open>TypeError\<close>.
\<close>

fun run_tasks ::
  "pbar \<Rightarrow> ('a, 'r, 'e) task \<Rightarrow> 'a option list \<Rightarrow> ('a, 'r, 'e) event list \<times> ('e error + unit)" where
  "run_tasks pbar task [] = ([], Inr ())"
| "run_tasks pbar task (None # rest) = ([], Inl TypeError)"
| "run_tasks pbar task (Some args # rest) =
     (case task args of
        (logs, Inl e) \<Rightarrow> ([TaskCall args], Inl (Exc e))
      | (logs, Inr res) \<Rightarrow>
          emit [TaskCall args, TaskFinished (Value res) pbar] (run_tasks pbar task rest))"

text \<open>
  \<^verbatim>\<open>LambdaExecutor._execute\<close>. \<open>pbar\<close> is the object that the \<^verbatim>\<open>with\<close> statement binds,
  \<open>loglevel\<close> is \<^verbatim>\<open>logging.getLogger("").level\<close>. The progress bar is a context manager:
  it is left when the block returns or raises. The \<^verbatim>\<open>join\<close> loop
  comes after the block, so it runs only when the block ends without an exception.
\<close>

definition LambdaExecutor_execute ::
  "bool \<Rightarrow> nat \<Rightarrow> pbar \<Rightarrow> nat \<Rightarrow> 'e initializer \<Rightarrow> ('a, 'r, 'e) task \<Rightarrow> 'a option list
     \<Rightarrow> ('r, 'e) ready list list \<Rightarrow> ('a, 'r, 'e) event list \<times> ('e error + unit) option" where
  "LambdaExecutor_execute use_threads max_workers pbar loglevel worker_initializer task
       task_arguments waits =
     (if use_threads \<and> max_workers = 1 then
        (case run_tasks pbar task task_arguments of
           (evs, r) \<Rightarrow> ([PbarEnter] @ evs @ [PbarExit], Some r))
      else if grouped_args max_workers task_arguments = [] then ([], Some (Inr ()))
      else
        (let processes = [0..<length (grouped_args max_workers task_arguments)];
             spawned = map (\<lambda>i. Spawn i worker_initializer loglevel
                                  (worker_args (grouped_args max_workers task_arguments ! i)))
                           processes
         in case receive_loop pbar processes processes waits of
              (evs, None) \<Rightarrow> (spawned @ map Start processes @ [PbarEnter] @ evs, None)
            | (evs, Some (Inl err)) \<Rightarrow>
                (spawned @ map Start processes @ [PbarEnter] @ evs @ [PbarExit], Some (Inl err))
            | (evs, Some (Inr u)) \<Rightarrow>
                (spawned @ map Start processes @ [PbarEnter] @ evs @ [PbarExit]
                   @ map Join processes, Some (Inr ()))))"

subsection \<open>Reading a trace\<close>

text \<open>
  The messages sent, the argument tuples the task was called on, the arguments of the result
  callback and the processes created, each in the order of the trace.
\<close>

definition sent :: "('a, 'r, 'e) event list \<Rightarrow> ('r, 'e) message list" where
  "sent evs = concat (map (\<lambda>ev. case ev of Send m \<Rightarrow> [m] | _ \<Rightarrow> []) evs)"

definition calls :: "('a, 'r, 'e) event list \<Rightarrow> 'a list" where
  "calls evs = concat (map (\<lambda>ev. case ev of TaskCall args \<Rightarrow> [args] | _ \<Rightarrow> []) evs)"

definition callbacks :: "('a, 'r, 'e) event list \<Rightarrow> (('r, 'e) pyobj \<times> pbar) list" where
  "callbacks evs = concat (map (\<lambda>ev. case ev of TaskFinished v p \<Rightarrow> [(v, p)] | _ \<Rightarrow> []) evs)"

definition spawns :: "('a, 'r, 'e) event list \<Rightarrow> nat list" where
  "spawns evs = concat (map (\<lambda>ev. case ev of Spawn i init lvl args \<Rightarrow> [i] | _ \<Rightarrow> []) evs)"



subsection \<open>What the parent reads\<close>





text \<open>The value a call of the task returns, when it returns.\<close>

definition returned :: "('a, 'r, 'e) task \<Rightarrow> 'a \<Rightarrow> 'r" where
  "returned task args = projr (snd (task args))"



subsection \<open>Sample inputs\<close>

text \<open>
  A task on numbers that logs a warning and doubles its argument, and raises on 5; an
  initializer that returns without logging; a log record; a progress bar.
\<close>

definition warning_record :: LogRecord where
  "warning_record = \<lparr>name = ''x.y'', levelno = 30, message = ''slow page''\<rparr>"

definition sample_task :: "(nat, nat, string) task" where
  "sample_task n = (if n = 5 then ([], Inl ''boom'') else ([warning_record], Inr (2 * n)))"

definition sample_init :: "string initializer" where
  "sample_init = ([], None)"

definition sample_pbar :: pbar where
  "sample_pbar = 7"



section \<open>Properties of the partition\<close>

subsection \<open>Chunks\<close>

lemma split_every_Nil: "split_every n [] = []"
  by (simp add: split_every.simps)

lemma split_every_step:
  "0 < n \<Longrightarrow> xs \<noteq> [] \<Longrightarrow> split_every n xs = take n xs # split_every n (drop n xs)"
  by (subst split_every.simps) simp

lemma concat_split_every: "0 < n \<Longrightarrow> concat (split_every n xs) = xs"
proof (induction n xs rule: split_every.induct)
  case (1 n xs)
  show ?case
  proof (cases "xs = []")
    case True
    then show ?thesis by (simp add: split_every_Nil)
  next
    case False
    with "1.prems" have "take n xs \<noteq> []" by simp
    with "1.IH" "1.prems" have "concat (split_every n (drop n xs)) = drop n xs" by simp
    with False "1.prems" show ?thesis by (simp add: split_every_step)
  qed
qed

lemma max_len_split_every:
  "0 < n \<Longrightarrow> foldr (\<lambda>c. max (length c)) (split_every n xs) 0 = min n (length xs)"
proof (induction n xs rule: split_every.induct)
  case (1 n xs)
  show ?case
  proof (cases "xs = []")
    case True
    then show ?thesis by (simp add: split_every_Nil)
  next
    case False
    with "1.prems" have "take n xs \<noteq> []" by simp
    with "1.IH" "1.prems"
    have "foldr (\<lambda>c. max (length c)) (split_every n (drop n xs)) 0 = min n (length (drop n xs))"
      by simp
    with False "1.prems" show ?thesis by (simp add: split_every_step)
  qed
qed

lemma zip_longest_exhausted: "\<forall>it \<in> set its. it = [] \<Longrightarrow> zip_longest its = []"
  by (subst zip_longest.simps) simp

lemma zip_longest_step:
  "\<not> (\<forall>it \<in> set its. it = []) \<Longrightarrow>
   zip_longest its = map (\<lambda>it. case it of [] \<Rightarrow> None | v # _ \<Rightarrow> v) its # zip_longest (map tl its)"
  by (subst zip_longest.simps) simp

lemma max_len_zero: "(\<forall>it \<in> set its. it = []) \<Longrightarrow> foldr (\<lambda>c. max (length c)) its 0 = 0"
  by (induction its) auto

lemma max_len_tl:
  "foldr (\<lambda>c. max (length c)) (map tl its) 0 = foldr (\<lambda>c. max (length c)) its 0 - 1"
  by (induction its) auto

lemma max_len_pos: "\<not> (\<forall>it \<in> set its. it = []) \<Longrightarrow> 0 < foldr (\<lambda>c. max (length c)) its 0"
  by (induction its) (auto simp: less_max_iff_disj)

lemma length_zip_longest: "length (zip_longest its) = foldr (\<lambda>c. max (length c)) its 0"
proof (induction its rule: zip_longest.induct)
  case (1 its)
  show ?case
  proof (cases "\<forall>it \<in> set its. it = []")
    case True
    then show ?thesis by (simp add: zip_longest_exhausted max_len_zero)
  next
    case False
    with "1.IH" have "length (zip_longest (map tl its)) = foldr (\<lambda>c. max (length c)) its 0 - 1"
      by (simp add: max_len_tl)
    with False max_len_pos [OF False] show ?thesis by (simp add: zip_longest_step)
  qed
qed

lemma nth_zip_longest:
  "i < length (zip_longest its) \<Longrightarrow>
   zip_longest its ! i = map (\<lambda>it. if i < length it then it ! i else None) its"
proof (induction its arbitrary: i rule: zip_longest.induct)
  case (1 its)
  show ?case
  proof (cases "\<forall>it \<in> set its. it = []")
    case True
    with "1.prems" show ?thesis by (simp add: zip_longest_exhausted)
  next
    case False
    show ?thesis
    proof (cases i)
      case 0
      have "(case it of [] \<Rightarrow> None | v # _ \<Rightarrow> v) = (if 0 < length it then it ! 0 else None)"
        for it :: "'a option list" by (cases it) auto
      with False 0 show ?thesis by (simp add: zip_longest_step)
    next
      case (Suc j)
      with "1.prems" False have j: "j < length (zip_longest (map tl its))"
        by (simp add: zip_longest_step)
      have tl_nth: "(if j < length (tl it) then tl it ! j else None)
                  = (if Suc j < length it then it ! Suc j else None)"
        for it :: "'a option list" by (cases it) auto
      have "zip_longest its ! i = zip_longest (map tl its) ! j"
        using False Suc by (simp add: zip_longest_step)
      also have "\<dots> = map (\<lambda>it. if j < length it then it ! j else None) (map tl its)"
        by (rule "1.IH" [OF False j])
      also have "\<dots> = map (\<lambda>it. if Suc j < length it then it ! Suc j else None) its"
        by (simp only: map_map comp_def tl_nth)
      finally show ?thesis using Suc by simp
    qed
  qed
qed

lemma mset_heads_tails:
  "filter_mset (\<lambda>v. v \<noteq> None) (mset (map (\<lambda>it. case it of [] \<Rightarrow> None | v # _ \<Rightarrow> v) its))
     + filter_mset (\<lambda>v. v \<noteq> None) (mset (concat (map tl its)))
   = filter_mset (\<lambda>v. v \<noteq> None) (mset (concat its))"
proof (induction its)
  case Nil
  then show ?case by simp
next
  case (Cons c cs)
  then show ?case by (cases c) (auto simp: ac_simps)
qed

lemma concat_exhausted: "\<forall>it \<in> set its. it = [] \<Longrightarrow> concat its = []"
  by (induction its) auto

lemma mset_zip_longest:
  "filter_mset (\<lambda>v. v \<noteq> None) (mset (concat (zip_longest its)))
   = filter_mset (\<lambda>v. v \<noteq> None) (mset (concat its))"
proof (induction its rule: zip_longest.induct)
  case (1 its)
  show ?case
  proof (cases "\<forall>it \<in> set its. it = []")
    case True
    then show ?thesis by (simp add: zip_longest_exhausted concat_exhausted)
  next
    case False
    from "1.IH" [OF False] mset_heads_tails [of its] False show ?thesis
      by (simp add: zip_longest_step)
  qed
qed

lemma Some_worker_args: "map Some (worker_args chunk) = filter (\<lambda>args. args \<noteq> None) chunk"
  by (induction chunk) (auto simp: worker_args_def)

lemma mset_worker_args_concat:
  "mset (map Some (concat (map worker_args rows)))
   = filter_mset (\<lambda>v. v \<noteq> None) (mset (concat rows))"
proof (induction rows)
  case Nil
  then show ?case by simp
next
  case (Cons r rs)
  have "mset (map Some (worker_args r)) = filter_mset (\<lambda>v. v \<noteq> None) (mset r)"
    by (simp add: Some_worker_args)
  with Cons show ?case by simp
qed

lemma mset_groups:
  "0 < W \<Longrightarrow> mset (map Some (concat (map worker_args (grouped_args W xs))))
     = filter_mset (\<lambda>v. v \<noteq> None) (mset xs)"
  by (simp only: mset_worker_args_concat grouped_args_def mset_zip_longest concat_split_every)

lemma length_grouped_args: "0 < W \<Longrightarrow> length (grouped_args W xs) = min W (length xs)"
  by (simp add: grouped_args_def length_zip_longest max_len_split_every)

lemma residue_small:
  "n \<le> W \<Longrightarrow> i < W \<Longrightarrow> [k \<leftarrow> [0..<n]. k mod W = i] = (if i < n then [i] else [])"
  by (induction n) auto

lemma residue_shift:
  "[k \<leftarrow> [W..<W + m]. k mod W = i] = map (\<lambda>k. k + W) [k \<leftarrow> [0..<m]. k mod W = i]"
proof -
  have "[W..<W + m] = map (\<lambda>k. k + W) [0..<m]"
    by (simp add: map_add_upt add.commute)
  then show ?thesis by (simp add: filter_map comp_def)
qed

lemma stride_unfold:
  assumes "0 < W" "i < W"
  shows "map ((!) xs) [k \<leftarrow> [0..<length xs]. k mod W = i]
       = (if i < length xs then [xs ! i] else [])
         @ map ((!) (drop W xs)) [k \<leftarrow> [0..<length xs - W]. k mod W = i]"
proof (cases "length xs \<le> W")
  case True
  with assms show ?thesis by (simp add: residue_small)
next
  case False
  then have lt: "W < length xs" by simp
  then have "[0..<length xs] = [0..<W] @ [W..<W + (length xs - W)]"
    using upt_add_eq_append [of 0 W "length xs - W"] by simp
  then have "[k \<leftarrow> [0..<length xs]. k mod W = i]
           = i # map (\<lambda>k. k + W) [k \<leftarrow> [0..<length xs - W]. k mod W = i]"
    using assms by (simp add: residue_small residue_shift)
  moreover have "map ((!) xs) (map (\<lambda>k. k + W) [k \<leftarrow> [0..<length xs - W]. k mod W = i])
               = map ((!) (drop W xs)) [k \<leftarrow> [0..<length xs - W]. k mod W = i]"
    using lt by (simp add: add.commute)
  ultimately show ?thesis using lt assms by simp
qed

lemma row_of_chunks:
  assumes "0 < W" "i < W"
  shows "filter (\<lambda>v. v \<noteq> None) (map (\<lambda>c. if i < length c then c ! i else None) (split_every W xs))
       = filter (\<lambda>v. v \<noteq> None) (map ((!) xs) [k \<leftarrow> [0..<length xs]. k mod W = i])"
  using assms
proof (induction W xs rule: split_every.induct)
  case (1 n xs)
  show ?case
  proof (cases "xs = []")
    case True
    then show ?thesis by (simp add: split_every_Nil)
  next
    case False
    with "1.prems" have "take n xs \<noteq> []" by simp
    from "1.IH" [OF this "1.prems"]
    have IH: "filter (\<lambda>v. v \<noteq> None) (map (\<lambda>c. if i < length c then c ! i else None) (split_every n (drop n xs)))
       = filter (\<lambda>v. v \<noteq> None) (map ((!) (drop n xs)) [k \<leftarrow> [0..<length xs - n]. k mod n = i])"
      by simp
    have step: "split_every n xs = take n xs # split_every n (drop n xs)"
      using "1.prems" False by (intro split_every_step) simp_all
    have hd_eq: "(if i < length (take n xs) then take n xs ! i else None)
               = (if i < length xs then xs ! i else None)"
      using "1.prems" by simp
    show ?thesis
      unfolding step stride_unfold [OF "1.prems", of xs] list.map filter.simps filter_append map_append hd_eq IH
      by simp
  qed
qed

lemma group_indices:
  assumes "0 < W" "i < length (grouped_args W xs)"
  shows "map Some (worker_args (grouped_args W xs ! i))
       = filter (\<lambda>v. v \<noteq> None) (map ((!) xs) [k \<leftarrow> [0..<length xs]. k mod W = i])"
proof -
  from assms have "i < W" by (simp add: length_grouped_args)
  with assms show ?thesis
    by (simp only: Some_worker_args grouped_args_def nth_zip_longest row_of_chunks)
qed

lemma filter_not_None_id: "None \<notin> set xs \<Longrightarrow> filter (\<lambda>v. v \<noteq> None) xs = xs"
proof (induction xs)
  case Nil
  then show ?case by simp
next
  case (Cons a xs)
  then have "a \<noteq> None" by (cases a) auto
  with Cons show ?case by simp
qed

lemma filter_mset_not_None_iff:
  "filter_mset (\<lambda>v. v \<noteq> None) (mset xs) = mset xs \<longleftrightarrow> None \<notin> set xs"
proof
  assume eq: "filter_mset (\<lambda>v. v \<noteq> None) (mset xs) = mset xs"
  have "None \<notin># filter_mset (\<lambda>v. v \<noteq> None) (mset xs)" by simp
  with eq have "None \<notin># mset xs" by simp
  then show "None \<notin> set xs" by simp
next
  assume "None \<notin> set xs"
  then have "filter (\<lambda>v. v \<noteq> None) xs = xs" by (rule filter_not_None_id)
  then have "mset (filter (\<lambda>v. v \<noteq> None) xs) = mset xs" by simp
  then show "filter_mset (\<lambda>v. v \<noteq> None) (mset xs) = mset xs" by simp
qed

subsection \<open>Round-robin assignment\<close>

text \<open>
  Claim C1, as the code has it. For a worker count \<open>W \<ge> 1\<close> and task arguments none of which
  is \<^verbatim>\<open>None\<close>, there are \<open>min W T\<close> groups, the groups together hold every element of the
  sequence exactly once, and group \<open>i\<close> is the list of the elements at the indices
  \<open>i, i + W, i + 2W, \<dots>\<close> below \<open>T\<close>, in that order.
\<close>

theorem partition_round_robin:
  assumes "0 < W" and "None \<notin> set xs"
  shows "length (grouped_args W xs) = min W (length xs)
       \<and> mset (map Some (concat (map worker_args (grouped_args W xs)))) = mset xs
       \<and> (\<forall>i < length (grouped_args W xs).
            map Some (worker_args (grouped_args W xs ! i))
              = map ((!) xs) [k \<leftarrow> [0..<length xs]. k mod W = i])"
proof (intro conjI allI impI)
  show "length (grouped_args W xs) = min W (length xs)"
    using assms(1) by (rule length_grouped_args)
next
  have "mset (map Some (concat (map worker_args (grouped_args W xs))))
      = filter_mset (\<lambda>v. v \<noteq> None) (mset xs)"
    using assms(1) by (rule mset_groups)
  also have "\<dots> = mset xs"
    using assms(2) filter_mset_not_None_iff [of xs] by blast
  finally show "mset (map Some (concat (map worker_args (grouped_args W xs)))) = mset xs" .
next
  fix i
  assume i: "i < length (grouped_args W xs)"
  have "set (map ((!) xs) [k \<leftarrow> [0..<length xs]. k mod W = i]) \<subseteq> set xs"
    by auto
  with assms(2) have "None \<notin> set (map ((!) xs) [k \<leftarrow> [0..<length xs]. k mod W = i])"
    by blast
  then have "filter (\<lambda>v. v \<noteq> None) (map ((!) xs) [k \<leftarrow> [0..<length xs]. k mod W = i])
           = map ((!) xs) [k \<leftarrow> [0..<length xs]. k mod W = i]"
    by (rule filter_not_None_id)
  with group_indices [OF assms(1) i]
  show "map Some (worker_args (grouped_args W xs ! i))
      = map ((!) xs) [k \<leftarrow> [0..<length xs]. k mod W = i]"
    by simp
qed

text \<open>The theorem at ten tasks and three workers.\<close>

theorem partition_round_robin_witness:
  "(0::nat) < 3 \<and> None \<notin> set (map Some [0..<10])
   \<and> length (grouped_args 3 (map Some [0..<10])) = min 3 (length (map Some [0..<10]))
   \<and> mset (map Some (concat (map worker_args (grouped_args 3 (map Some [0..<10])))))
       = mset (map Some [0..<10])
   \<and> map Some (worker_args (grouped_args 3 (map Some [0..<10]) ! 1))
       = map ((!) (map Some [0..<10])) [k \<leftarrow> [0..<length (map Some [0..<10])]. k mod 3 = 1]"
proof -
  have pos: "(0::nat) < 3" by simp
  have nn: "None \<notin> set (map Some [0..<10])" by auto
  note rr = partition_round_robin [OF pos nn]
  from rr have "length (grouped_args 3 (map Some [0..<10])) = min 3 (length (map Some [0..<10]))"
    by blast
  then have "1 < length (grouped_args 3 (map Some [0..<10]))" by simp
  with rr pos nn show ?thesis by blast
qed

text \<open>
  Claim C1 as the specification words it, for every sequence, does not hold: with two
  workers and the arguments \<open>[7, None, 9]\<close> the second group is empty and the element at
  index 1 is in no group.
\<close>

theorem partition_every_sequence_counterexample:
  "map worker_args (grouped_args 2 [Some (7::nat), None, Some 9]) = [[7, 9], []]
   \<and> mset (map Some (concat (map worker_args (grouped_args 2 [Some (7::nat), None, Some 9]))))
       \<noteq> mset [Some 7, None, Some 9]"
proof -
  have groups: "map worker_args (grouped_args 2 [Some (7::nat), None, Some 9]) = [[7, 9], []]"
    by code_simp
  show ?thesis unfolding groups by simp
qed

subsection \<open>Elements equal to \<^verbatim>\<open>None\<close>\<close>

text \<open>
  Claim C10. The filter that removes the padding of \<^verbatim>\<open>zip_longest\<close> removes every element
  of the input that is \<^verbatim>\<open>None\<close> as well: for \<open>W \<ge> 1\<close> group \<open>i\<close> is what is left of the elements
  at the indices \<open>i, i + W, \<dots>\<close> once the \<^verbatim>\<open>None\<close>s are dropped, the groups together hold
  exactly the elements that are not \<^verbatim>\<open>None\<close>, and they hold the whole input if and only if no
  element of it is \<^verbatim>\<open>None\<close>.
\<close>

theorem None_arguments_omitted:
  assumes "0 < W"
  shows "(\<forall>i < length (grouped_args W xs).
            map Some (worker_args (grouped_args W xs ! i))
              = filter (\<lambda>v. v \<noteq> None) (map ((!) xs) [k \<leftarrow> [0..<length xs]. k mod W = i]))
       \<and> mset (map Some (concat (map worker_args (grouped_args W xs))))
           = filter_mset (\<lambda>v. v \<noteq> None) (mset xs)
       \<and> (mset (map Some (concat (map worker_args (grouped_args W xs)))) = mset xs
            \<longleftrightarrow> None \<notin> set xs)"
proof (intro conjI allI impI)
  fix i
  assume "i < length (grouped_args W xs)"
  with assms show "map Some (worker_args (grouped_args W xs ! i))
      = filter (\<lambda>v. v \<noteq> None) (map ((!) xs) [k \<leftarrow> [0..<length xs]. k mod W = i])"
    by (rule group_indices)
next
  show all: "mset (map Some (concat (map worker_args (grouped_args W xs))))
      = filter_mset (\<lambda>v. v \<noteq> None) (mset xs)"
    using assms by (rule mset_groups)
  show "mset (map Some (concat (map worker_args (grouped_args W xs)))) = mset xs
          \<longleftrightarrow> None \<notin> set xs"
    unfolding all by (rule filter_mset_not_None_iff)
qed

theorem None_arguments_omitted_witness:
  "(0::nat) < 2
   \<and> map Some (worker_args (grouped_args 2 [Some (7::nat), None, Some 9] ! 1))
       = filter (\<lambda>v. v \<noteq> None)
           (map ((!) [Some 7, None, Some 9])
              [k \<leftarrow> [0..<length [Some (7::nat), None, Some 9]]. k mod 2 = 1])
   \<and> mset (map Some (concat (map worker_args (grouped_args 2 [Some (7::nat), None, Some 9]))))
       = filter_mset (\<lambda>v. v \<noteq> None) (mset [Some 7, None, Some 9])
   \<and> (mset (map Some (concat (map worker_args (grouped_args 2 [Some (7::nat), None, Some 9]))))
         = mset [Some 7, None, Some 9]
        \<longleftrightarrow> None \<notin> set [Some (7::nat), None, Some 9])"
proof -
  have pos: "(0::nat) < 2" by simp
  have "length (grouped_args 2 [Some (7::nat), None, Some 9]) = min 2 (length [Some (7::nat), None, Some 9])"
    using pos by (rule length_grouped_args)
  then have "1 < length (grouped_args 2 [Some (7::nat), None, Some 9])" by simp
  with None_arguments_omitted [OF pos, of "[Some (7::nat), None, Some 9]"] pos
  show ?thesis by blast
qed


section \<open>Properties of the worker\<close>

lemma sent_append: "sent (xs @ ys) = sent xs @ sent ys"
  by (simp add: sent_def)

lemma calls_append: "calls (xs @ ys) = calls xs @ calls ys"
  by (simp add: calls_def)

lemma sent_Cons:
  "sent (ev # evs) = (case ev of Send m \<Rightarrow> [m] | _ \<Rightarrow> []) @ sent evs"
  by (simp add: sent_def)

lemma calls_Cons:
  "calls (ev # evs) = (case ev of TaskCall args \<Rightarrow> [args] | _ \<Rightarrow> []) @ calls evs"
  by (simp add: calls_def)

lemma sent_Nil: "sent [] = []"
  by (simp add: sent_def)

lemma calls_Nil: "calls [] = []"
  by (simp add: calls_def)

lemma sent_enqueue:
  "sent (map ConnectionLogHandler_enqueue logs) = map (\<lambda>r. (Str ''log'', Record r)) logs"
  by (induction logs) (simp_all add: sent_Nil sent_Cons ConnectionLogHandler_enqueue_def)

lemma calls_enqueue: "calls (map ConnectionLogHandler_enqueue logs) = []"
  by (induction logs) (simp_all add: calls_Nil calls_Cons ConnectionLogHandler_enqueue_def)

lemma set_enqueue:
  "set (map ConnectionLogHandler_enqueue logs) \<subseteq> range (\<lambda>r. Send (Str ''log'', Record r))"
  by (auto simp: ConnectionLogHandler_enqueue_def)

lemma no_log_in_enqueued:
  "filter (\<lambda>m. fst m \<noteq> Str ''log'') (map (\<lambda>r. (Str ''log'', Record r)) logs) = []"
  by (induction logs) simp_all


text \<open>One round of the loop, for a call that returns and for a call that raises.\<close>

lemma task_loop_returns:
  "task args = (logs, Inr res) \<Longrightarrow>
   task_loop task (args # rest)
     = TaskCall args # map ConnectionLogHandler_enqueue logs
         @ Send (Enum result, Value res) # task_loop task rest"
  by simp

lemma task_loop_raises:
  "task args = (logs, Inl e) \<Longrightarrow>
   task_loop task (args # rest)
     = TaskCall args # map ConnectionLogHandler_enqueue logs @ [Send (Enum exception, Error e)]"
  by simp

text \<open>The messages other than log records, and the calls, up to the first call that raises.\<close>

lemma task_loop_fault_replies:
  assumes "\<forall>args \<in> set pre. \<exists>logs res. task args = (logs, Inr res)"
    and "task a = (logs, Inl e)"
  shows "filter (\<lambda>m. fst m \<noteq> Str ''log'') (sent (task_loop task (pre @ a # post)))
       = map (\<lambda>args. (Enum result, Value (returned task args))) pre
           @ [(Enum exception, Error e)]"
  using assms(1)
proof (induction pre)
  case Nil
  from assms(2) show ?case
    by (simp add: sent_Cons sent_append sent_Nil sent_enqueue no_log_in_enqueued)
next
  case (Cons p pre)
  then obtain plogs pres where p: "task p = (plogs, Inr pres)" by auto
  from Cons have IH: "filter (\<lambda>m. fst m \<noteq> Str ''log'') (sent (task_loop task (pre @ a # post)))
       = map (\<lambda>args. (Enum result, Value (returned task args))) pre @ [(Enum exception, Error e)]"
    by simp
  from p have "returned task p = pres" by (simp add: returned_def)
  with p IH show ?case
    by (simp add: sent_Cons sent_append sent_enqueue no_log_in_enqueued)
qed

lemma task_loop_fault_calls:
  assumes "\<forall>args \<in> set pre. \<exists>logs res. task args = (logs, Inr res)"
    and "task a = (logs, Inl e)"
  shows "calls (task_loop task (pre @ a # post)) = pre @ [a]"
  using assms(1)
proof (induction pre)
  case Nil
  from assms(2) show ?case
    by (simp add: calls_Cons calls_append calls_Nil calls_enqueue)
next
  case (Cons p pre)
  then obtain plogs pres where p: "task p = (plogs, Inr pres)" by auto
  from Cons have "calls (task_loop task (pre @ a # post)) = pre @ [a]" by simp
  with p show ?case
    by (simp add: calls_Cons calls_append calls_enqueue)
qed

lemma process_loop_returns:
  "snd user_init = None \<Longrightarrow>
   process_loop user_init loglevel task task_args
     = ([ConfigureLogging loglevel, UserInit] @ map ConnectionLogHandler_enqueue (fst user_init)
          @ task_loop task task_args @ [Send (Enum complete, PyNone), Close], None)"
  by (simp add: process_loop_def)

lemma process_loop_init_raises:
  "snd user_init = Some e \<Longrightarrow>
   process_loop user_init loglevel task task_args
     = ([ConfigureLogging loglevel, UserInit] @ map ConnectionLogHandler_enqueue (fst user_init),
        Some e)"
  by (simp add: process_loop_def)

text \<open>
  Claim C3. When the initializer has returned, the calls on the tuples before position \<open>k\<close>
  return and the call on the tuple at position \<open>k\<close> raises \<open>e\<close>, the task is called on the
  tuples at positions \<open>0, \<dots>, k\<close> and on no later one, and the messages of the worker other
  than forwarded log records are the results of positions \<open>0, \<dots>, k - 1\<close> in order, then the
  exception message with \<open>e\<close>, then \<^verbatim>\<open>complete\<close>.
\<close>

theorem task_fault_stops_worker:
  assumes "snd user_init = None"
    and "k < length task_args"
    and "\<forall>j < k. \<exists>logs res. task (task_args ! j) = (logs, Inr res)"
    and "task (task_args ! k) = (logs, Inl e)"
  shows "filter (\<lambda>m. fst m \<noteq> Str ''log'')
           (sent (fst (process_loop user_init loglevel task task_args)))
         = map (\<lambda>args. (Enum result, Value (returned task args))) (take k task_args)
             @ [(Enum exception, Error e), (Enum complete, PyNone)]
       \<and> calls (fst (process_loop user_init loglevel task task_args)) = take (Suc k) task_args"
proof -
  define pre where "pre = take k task_args"
  define post where "post = drop (Suc k) task_args"
  from assms(2) have split: "task_args = pre @ task_args ! k # post"
    by (simp add: pre_def post_def id_take_nth_drop)
  have pre_ok: "\<forall>args \<in> set pre. \<exists>logs res. task args = (logs, Inr res)"
  proof
    fix args assume "args \<in> set pre"
    then obtain j where "j < length pre" "pre ! j = args" by (auto simp: in_set_conv_nth)
    with assms(2) have "j < k" "task_args ! j = args" by (simp_all add: pre_def)
    with assms(3) show "\<exists>logs res. task args = (logs, Inr res)" by auto
  qed
  have replies: "filter (\<lambda>m. fst m \<noteq> Str ''log'') (sent (task_loop task task_args))
       = map (\<lambda>args. (Enum result, Value (returned task args))) pre @ [(Enum exception, Error e)]"
    by (subst split) (rule task_loop_fault_replies [OF pre_ok assms(4)])
  have called: "calls (task_loop task task_args) = pre @ [task_args ! k]"
    by (subst split) (rule task_loop_fault_calls [OF pre_ok assms(4)])
  have take_Suc: "take (Suc k) task_args = pre @ [task_args ! k]"
    using assms(2) by (simp add: pre_def take_Suc_conv_app_nth)
  show ?thesis
    unfolding process_loop_returns [OF assms(1)] fst_conv take_Suc pre_def [symmetric]
    by (simp add: sent_Cons sent_append sent_Nil sent_enqueue no_log_in_enqueued replies
        calls_Cons calls_append calls_Nil calls_enqueue called)
qed


text \<open>The theorem at the group \<open>[1, 5, 7]\<close>, where the second call raises.\<close>

theorem task_fault_stops_worker_witness:
  "filter (\<lambda>m. fst m \<noteq> Str ''log'')
     (sent (fst (process_loop sample_init 20 sample_task [1, 5, 7])))
     = [(Enum result, Value 2), (Enum exception, Error ''boom''), (Enum complete, PyNone)]
   \<and> calls (fst (process_loop sample_init 20 sample_task [1, 5, 7])) = [1, 5]"
proof -
  have init: "snd sample_init = None" by (simp add: sample_init_def)
  have k: "(1::nat) < length [1, 5, 7 :: nat]" by simp
  have before: "\<forall>j < (1::nat). \<exists>logs res. sample_task ([1, 5, 7] ! j) = (logs, Inr res)"
    by (simp add: sample_task_def)
  have at: "sample_task ([1, 5, 7] ! 1) = ([], Inl ''boom'')" by (simp add: sample_task_def)
  have "returned sample_task 1 = 2" by (simp add: returned_def sample_task_def)
  with task_fault_stops_worker [OF init k before at, of 20] show ?thesis by simp
qed

subsection \<open>The end of the worker\<close>

lemma count_enqueue_complete:
  "count_list (map ConnectionLogHandler_enqueue logs) (Send (Enum complete, PyNone)) = 0"
  by (induction logs) (simp_all add: ConnectionLogHandler_enqueue_def)

lemma count_enqueue_Close: "count_list (map ConnectionLogHandler_enqueue logs) Close = 0"
  by (induction logs) (simp_all add: ConnectionLogHandler_enqueue_def)

lemma count_task_loop_complete:
  "count_list (task_loop task task_args) (Send (Enum complete, PyNone)) = 0"
proof (induction task_args)
  case Nil
  then show ?case by simp
next
  case (Cons a rest)
  obtain logs out where a: "task a = (logs, out)" by (cases "task a")
  with Cons show ?case by (cases out) (simp_all add: count_enqueue_complete)
qed

lemma count_task_loop_Close: "count_list (task_loop task task_args) Close = 0"
proof (induction task_args)
  case Nil
  then show ?case by simp
next
  case (Cons a rest)
  obtain logs out where a: "task a = (logs, out)" by (cases "task a")
  with Cons show ?case by (cases out) (simp_all add: count_enqueue_Close)
qed

text \<open>
  Claim C5. When the initializer has returned, whatever the group and the task are, the
  worker sends \<^verbatim>\<open>complete\<close> exactly once, as its last message, closes the connection as its
  last step and returns. This covers a loop left by \<^verbatim>\<open>break\<close> after an exception message.
\<close>

theorem complete_sent_once:
  assumes "snd user_init = None"
  shows "count_list (fst (process_loop user_init loglevel task task_args))
           (Send (Enum complete, PyNone)) = 1
       \<and> last (sent (fst (process_loop user_init loglevel task task_args)))
           = (Enum complete, PyNone)
       \<and> count_list (fst (process_loop user_init loglevel task task_args)) Close = 1
       \<and> last (fst (process_loop user_init loglevel task task_args)) = Close
       \<and> snd (process_loop user_init loglevel task task_args) = None"
  unfolding process_loop_returns [OF assms] fst_conv snd_conv
  by (simp add: count_enqueue_complete count_enqueue_Close count_task_loop_complete
      count_task_loop_Close sent_Cons sent_append sent_Nil)

theorem complete_sent_once_witness:
  "count_list (fst (process_loop sample_init 20 sample_task [1, 5, 7]))
     (Send (Enum complete, PyNone)) = 1
   \<and> last (sent (fst (process_loop sample_init 20 sample_task [1, 5, 7])))
       = (Enum complete, PyNone)
   \<and> count_list (fst (process_loop sample_init 20 sample_task [1, 5, 7])) Close = 1
   \<and> last (fst (process_loop sample_init 20 sample_task [1, 5, 7])) = Close
   \<and> snd (process_loop sample_init 20 sample_task [1, 5, 7]) = None
   \<and> (Enum exception, Error ''boom'')
       \<in> set (sent (fst (process_loop sample_init 20 sample_task [1, 5, 7])))"
proof -
  have init: "snd sample_init = None" by (simp add: sample_init_def)
  have "(Enum exception, Error ''boom'')
       \<in> set (sent (fst (process_loop sample_init 20 sample_task [1, 5, 7])))"
    by (simp add: process_loop_def sample_init_def sample_task_def sent_def
        ConnectionLogHandler_enqueue_def)
  with complete_sent_once [OF init, of 20 sample_task "[1, 5, 7]"] show ?thesis by simp
qed

subsection \<open>Log records\<close>




section \<open>Properties of the parent\<close>

lemma fst_emit: "fst (emit evs p) = evs @ fst p"
  by (simp add: emit_def)

lemma snd_emit: "snd (emit evs p) = snd p"
  by (simp add: emit_def)







subsection \<open>The fallback\<close>


lemma run_tasks_no_init: "UserInit \<notin> set (fst (run_tasks pbar task xs))"
proof (induction xs)
  case Nil
  then show ?case by simp
next
  case (Cons x rest)
  show ?case
  proof (cases x)
    case None
    then show ?thesis by simp
  next
    case (Some args)
    obtain logs out where a: "task args = (logs, out)" by (cases "task args")
    with Some Cons show ?thesis
      by (cases out) (simp_all add: fst_emit)
  qed
qed



lemma execute_fallback:
  "LambdaExecutor_execute True 1 pbar loglevel worker_initializer task task_arguments waits
   = (PbarEnter # fst (run_tasks pbar task task_arguments) @ [PbarExit],
      Some (snd (run_tasks pbar task task_arguments)))"
  by (simp add: LambdaExecutor_execute_def split: prod.splits)





text \<open>
  Claim C7. With no task arguments the partition has no group, the run creates no process,
  never invokes the result callback and returns: at once in the general branch, after an
  empty loop inside the progress bar's block in the fallback.
\<close>

theorem empty_run_is_noop:
  "LambdaExecutor_execute use_threads max_workers pbar loglevel worker_initializer
       (task :: ('a, 'r, 'e) task) [] waits
     = (if use_threads \<and> max_workers = 1 then [PbarEnter, PbarExit] else [], Some (Inr ()))
   \<and> grouped_args max_workers ([] :: 'a option list) = []
   \<and> spawns (fst (LambdaExecutor_execute use_threads max_workers pbar loglevel worker_initializer
                     task [] waits)) = []
   \<and> callbacks (fst (LambdaExecutor_execute use_threads max_workers pbar loglevel
                        worker_initializer task [] waits)) = []"
proof -
  have none: "grouped_args max_workers ([] :: 'a option list) = []"
    by (simp add: grouped_args_def split_every_Nil zip_longest_exhausted)
  have run: "LambdaExecutor_execute use_threads max_workers pbar loglevel worker_initializer
       task [] waits
     = (if use_threads \<and> max_workers = 1 then [PbarEnter, PbarExit] else [], Some (Inr ()))"
    by (simp add: LambdaExecutor_execute_def none)
  show ?thesis
    unfolding run using none by (auto simp: spawns_def callbacks_def)
qed

theorem empty_run_is_noop_witness:
  "LambdaExecutor_execute False 4 sample_pbar 20 sample_init sample_task [] [] = ([], Some (Inr ()))
   \<and> LambdaExecutor_execute True 1 sample_pbar 20 sample_init sample_task [] []
       = ([PbarEnter, PbarExit], Some (Inr ()))"
  using empty_run_is_noop [of False 4 sample_pbar 20 sample_init sample_task "[]"]
        empty_run_is_noop [of True 1 sample_pbar 20 sample_init sample_task "[]"]
  by simp

subsection \<open>The initializer\<close>

lemma count_enqueue_UserInit: "count_list (map ConnectionLogHandler_enqueue logs) UserInit = 0"
  by (induction logs) (simp_all add: ConnectionLogHandler_enqueue_def)

lemma count_task_loop_UserInit: "count_list (task_loop task task_args) UserInit = 0"
proof (induction task_args)
  case Nil
  then show ?case by simp
next
  case (Cons a rest)
  obtain logs out where a: "task a = (logs, out)" by (cases "task a")
  with Cons show ?case by (cases out) (simp_all add: count_enqueue_UserInit)
qed

lemma process_loop_starts:
  "\<exists>later. fst (process_loop user_init loglevel task task_args)
            = ConfigureLogging loglevel # UserInit # later
          \<and> count_list later UserInit = 0"
proof (cases "snd user_init")
  case None
  show ?thesis
    unfolding process_loop_returns [OF None] fst_conv
    by (simp add: count_enqueue_UserInit count_task_loop_UserInit)
next
  case (Some e)
  show ?thesis
    unfolding process_loop_init_raises [OF Some] fst_conv
    by (simp add: count_enqueue_UserInit)
qed

text \<open>
  Claim C9. The fallback never calls the worker initializer, whatever the task arguments
  are. A worker calls it exactly once, and calls the task on no tuple before that.
\<close>

theorem fallback_skips_initializer:
  "UserInit \<notin> set (fst (LambdaExecutor_execute True 1 pbar loglevel worker_initializer
                           (task :: ('a, 'r, 'e) task) task_arguments waits))
   \<and> count_list (fst (process_loop worker_initializer loglevel task task_args)) UserInit = 1
   \<and> calls (takeWhile (\<lambda>ev. ev \<noteq> UserInit)
              (fst (process_loop worker_initializer loglevel task task_args))) = []"
proof -
  have "UserInit \<notin> set (fst (LambdaExecutor_execute True 1 pbar loglevel worker_initializer
                           task task_arguments waits))"
    unfolding execute_fallback fst_conv by (simp add: run_tasks_no_init)
  moreover
  obtain later where "fst (process_loop worker_initializer loglevel task task_args)
            = ConfigureLogging loglevel # UserInit # later" "count_list later UserInit = 0"
    using process_loop_starts by blast
  then have "count_list (fst (process_loop worker_initializer loglevel task task_args)) UserInit = 1
   \<and> calls (takeWhile (\<lambda>ev. ev \<noteq> UserInit)
              (fst (process_loop worker_initializer loglevel task task_args))) = []"
    by (simp add: calls_def)
  ultimately show ?thesis by blast
qed

theorem fallback_skips_initializer_witness:
  "UserInit \<notin> set (fst (LambdaExecutor_execute True 1 sample_pbar 20 sample_init sample_task
                           [Some 3, Some 1] []))
   \<and> count_list (fst (process_loop sample_init 20 sample_task [3, 1])) UserInit = 1
   \<and> calls (takeWhile (\<lambda>ev. ev \<noteq> UserInit)
              (fst (process_loop sample_init 20 sample_task [3, 1]))) = []"
  using fallback_skips_initializer [of sample_pbar 20 sample_init sample_task "[Some 3, Some 1]" "[]" "[3, 1]"]
  by simp

subsection \<open>The receive loop\<close>

lemma for_ready_Exc:
  "snd (for_ready pbar processes connections ready :: ('a, 'r, 'e) event list \<times> _) = Inl (Exc e)
   \<Longrightarrow> suffix (map Terminate processes) (fst (for_ready pbar processes connections ready
          :: ('a, 'r, 'e) event list \<times> _))"
proof (induction ready arbitrary: connections)
  case Nil
  then show ?case by simp
next
  case (Cons r rest)
  show ?case
  proof (cases r)
    case NotConnection
    with Cons.prems show ?thesis by simp
  next
    case (Connection c rv)
    show ?thesis
    proof (cases rv)
      case EOFError
      with Connection Cons show ?thesis by (simp split: if_splits)
    next
      case (Msg msg_type msg)
      with Connection Cons show ?thesis
        by (auto simp: fst_emit snd_emit suffix_ConsI split: if_splits pyobj.splits)
    qed
  qed
qed

lemma receive_loop_Exc:
  "snd (receive_loop pbar processes connections waits :: ('a, 'r, 'e) event list \<times> _)
     = Some (Inl (Exc e))
   \<Longrightarrow> suffix (map Terminate processes) (fst (receive_loop pbar processes connections waits
          :: ('a, 'r, 'e) event list \<times> _))"
proof (induction waits arbitrary: connections)
  case Nil
  then show ?case by (simp split: if_splits)
next
  case (Cons ready later)
  show ?case
  proof (cases "connections = []")
    case True
    with Cons.prems show ?thesis by simp
  next
    case False
    obtain evs r where fr: "(for_ready pbar processes connections ready
        :: ('a, 'r, 'e) event list \<times> _) = (evs, r)"
      by (cases "for_ready pbar processes connections ready :: ('a, 'r, 'e) event list \<times> _")
    show ?thesis
    proof (cases r)
      case (Inl err)
      with fr False Cons.prems have "err = Exc e" by simp
      with fr Inl
      have "snd (for_ready pbar processes connections ready :: ('a, 'r, 'e) event list \<times> _)
          = Inl (Exc e)"
        by simp
      then have "suffix (map Terminate processes)
          (fst (for_ready pbar processes connections ready :: ('a, 'r, 'e) event list \<times> _))"
        by (rule for_ready_Exc)
      with fr have "suffix (map Terminate processes) evs" by simp
      with fr Inl False show ?thesis by simp
    next
      case (Inr connections')
      with fr False Cons.prems
      have "snd (receive_loop pbar processes connections' later
               :: ('a, 'r, 'e) event list \<times> _) = Some (Inl (Exc e))"
        by (simp add: snd_emit)
      then have "suffix (map Terminate processes)
          (fst (receive_loop pbar processes connections' later :: ('a, 'r, 'e) event list \<times> _))"
        by (rule Cons.IH)
      with fr Inr False show ?thesis by (simp add: fst_emit suffix_appendI)
    qed
  qed
qed


lemma execute_general:
  assumes "\<not> (use_threads \<and> max_workers = 1)"
  shows "LambdaExecutor_execute use_threads max_workers pbar loglevel worker_initializer
           (task :: ('a, 'r, 'e) task) task_arguments waits
       = (if grouped_args max_workers task_arguments = [] then ([], Some (Inr ()))
          else
            (let processes = [0..<length (grouped_args max_workers task_arguments)];
                 spawned = map (\<lambda>i. Spawn i worker_initializer loglevel
                             (worker_args (grouped_args max_workers task_arguments ! i)))
                           processes
             in case receive_loop pbar processes processes waits of
                  (evs, None) \<Rightarrow> (spawned @ map Start processes @ [PbarEnter] @ evs, None)
                | (evs, Some (Inl err)) \<Rightarrow>
                    (spawned @ map Start processes @ [PbarEnter] @ evs @ [PbarExit],
                     Some (Inl err))
                | (evs, Some (Inr u)) \<Rightarrow>
                    (spawned @ map Start processes @ [PbarEnter] @ evs @ [PbarExit]
                       @ map Join processes, Some (Inr ()))))"
  using assms unfolding LambdaExecutor_execute_def by (simp only: if_False)

lemma execute_raises_Exc:
  assumes "\<not> (use_threads \<and> max_workers = 1)"
    and "snd (LambdaExecutor_execute use_threads max_workers pbar loglevel worker_initializer
           (task :: ('a, 'r, 'e) task) task_arguments waits) = Some (Inl (Exc e))"
  shows "suffix (map Terminate [0..<length (grouped_args max_workers task_arguments)] @ [PbarExit])
           (fst (LambdaExecutor_execute use_threads max_workers pbar loglevel worker_initializer
                   task task_arguments waits))"
proof -
  define processes where "processes = [0..<length (grouped_args max_workers task_arguments)]"
  obtain evs r where rl: "(receive_loop pbar processes processes waits
        :: ('a, 'r, 'e) event list \<times> _) = (evs, r)"
    by (cases "receive_loop pbar processes processes waits :: ('a, 'r, 'e) event list \<times> _")
  from assms(2) have nonempty: "grouped_args max_workers task_arguments \<noteq> []"
    unfolding execute_general [OF assms(1)] by (auto split: if_splits)
  from assms(2) nonempty rl have r: "r = Some (Inl (Exc e))"
    unfolding execute_general [OF assms(1)] processes_def [symmetric]
    by (auto simp: Let_def split: option.splits sum.splits)
  with rl have "snd (receive_loop pbar processes processes waits :: ('a, 'r, 'e) event list \<times> _)
      = Some (Inl (Exc e))"
    by simp
  then have "suffix (map Terminate processes)
      (fst (receive_loop pbar processes processes waits :: ('a, 'r, 'e) event list \<times> _))"
    by (rule receive_loop_Exc)
  with rl have "suffix (map Terminate processes) evs" by simp
  then obtain pre where "evs = pre @ map Terminate processes" by (auto simp: suffix_def)
  with nonempty rl r show ?thesis
    unfolding execute_general [OF assms(1)] processes_def [symmetric]
    by (simp add: Let_def suffix_def)
qed

lemma execute_returns_joins:
  assumes "\<not> (use_threads \<and> max_workers = 1)"
    and "snd (LambdaExecutor_execute use_threads max_workers pbar loglevel worker_initializer
           (task :: ('a, 'r, 'e) task) task_arguments waits) = Some (Inr ())"
  shows "suffix (map Join [0..<length (grouped_args max_workers task_arguments)])
           (fst (LambdaExecutor_execute use_threads max_workers pbar loglevel worker_initializer
                   task task_arguments waits))"
proof (cases "grouped_args max_workers task_arguments = []")
  case True
  then show ?thesis
    unfolding execute_general [OF assms(1)] by simp
next
  case False
  define processes where "processes = [0..<length (grouped_args max_workers task_arguments)]"
  obtain evs r where rl: "(receive_loop pbar processes processes waits
        :: ('a, 'r, 'e) event list \<times> _) = (evs, r)"
    by (cases "receive_loop pbar processes processes waits :: ('a, 'r, 'e) event list \<times> _")
  from assms(2) False rl have r: "r = Some (Inr ())"
    unfolding execute_general [OF assms(1)] processes_def [symmetric]
    by (auto simp: Let_def split: option.splits sum.splits)
  with False rl show ?thesis
    unfolding execute_general [OF assms(1)] processes_def [symmetric]
    by (simp add: Let_def suffix_def)
qed

text \<open>
  Claim C2, as the code has it. On an exception message the parent calls \<^verbatim>\<open>terminate\<close> on
  every process, in the order of their creation, and raises the error it received, without
  looking at the connections that are still ready. A run of the general branch that ends
  with an error of a worker therefore ends with these calls and the exit from the progress
  bar's block. A run of the general branch that returns ends with \<^verbatim>\<open>join\<close> on every
  process.
\<close>

theorem exception_terminates_all:
  "(for_ready pbar processes connections (Connection c (Msg (Enum exception) (Error e)) # rest)
      :: ('a, 'r, 'e) event list \<times> ('e error + nat list))
     = (map Terminate processes, Inl (Exc e))
   \<and> (\<not> (use_threads \<and> max_workers = 1)
        \<and> snd (LambdaExecutor_execute use_threads max_workers pbar loglevel worker_initializer
                 (task :: ('a, 'r, 'e) task) task_arguments waits) = Some (Inl (Exc e))
       \<longrightarrow> suffix (map Terminate [0..<length (grouped_args max_workers task_arguments)]
                     @ [PbarExit])
             (fst (LambdaExecutor_execute use_threads max_workers pbar loglevel worker_initializer
                     task task_arguments waits)))
   \<and> (\<not> (use_threads \<and> max_workers = 1)
        \<and> snd (LambdaExecutor_execute use_threads max_workers pbar loglevel worker_initializer
                 task task_arguments waits) = Some (Inr ())
       \<longrightarrow> suffix (map Join [0..<length (grouped_args max_workers task_arguments)])
             (fst (LambdaExecutor_execute use_threads max_workers pbar loglevel worker_initializer
                     task task_arguments waits)))"
proof (intro conjI impI)
  show "(for_ready pbar processes connections (Connection c (Msg (Enum exception) (Error e)) # rest)
      :: ('a, 'r, 'e) event list \<times> ('e error + nat list))
     = (map Terminate processes, Inl (Exc e))"
    by simp
next
  assume "\<not> (use_threads \<and> max_workers = 1)
        \<and> snd (LambdaExecutor_execute use_threads max_workers pbar loglevel worker_initializer
                 task task_arguments waits) = Some (Inl (Exc e))"
  then have general: "\<not> (use_threads \<and> max_workers = 1)"
    and raised: "snd (LambdaExecutor_execute use_threads max_workers pbar loglevel
                 worker_initializer task task_arguments waits) = Some (Inl (Exc e))"
    by simp_all
  show "suffix (map Terminate [0..<length (grouped_args max_workers task_arguments)]
                     @ [PbarExit])
             (fst (LambdaExecutor_execute use_threads max_workers pbar loglevel worker_initializer
                     task task_arguments waits))"
    by (rule execute_raises_Exc [OF general raised])
next
  assume "\<not> (use_threads \<and> max_workers = 1)
        \<and> snd (LambdaExecutor_execute use_threads max_workers pbar loglevel worker_initializer
                 task task_arguments waits) = Some (Inr ())"
  then have general: "\<not> (use_threads \<and> max_workers = 1)"
    and returned: "snd (LambdaExecutor_execute use_threads max_workers pbar loglevel
                 worker_initializer task task_arguments waits) = Some (Inr ())"
    by simp_all
  show "suffix (map Join [0..<length (grouped_args max_workers task_arguments)])
             (fst (LambdaExecutor_execute use_threads max_workers pbar loglevel worker_initializer
                     task task_arguments waits))"
    by (rule execute_returns_joins [OF general returned])
qed


text \<open>
  The theorem on a run with two workers, where the second worker reports an exception
  after the first one has delivered a result, and on a run with one worker that completes.
\<close>

theorem exception_terminates_all_witness:
  "for_ready sample_pbar [0, 1] [0, 1]
       [Connection 1 (Msg (Enum exception) (Error ''boom'')), Connection 0 EOFError]
     = ([Terminate 0, Terminate 1 :: (nat, nat, string) event], Inl (Exc ''boom''))
   \<and> suffix [Terminate 0, Terminate 1, PbarExit]
        (fst (LambdaExecutor_execute False 2 sample_pbar 20 sample_init sample_task
                [Some 1, Some 5, Some 2]
                [[Connection 0 (Msg (Enum result) (Value 2)),
                  Connection 1 (Msg (Enum exception) (Error ''boom''))]]))
   \<and> suffix [Join 0]
        (fst (LambdaExecutor_execute False 1 sample_pbar 20 sample_init sample_task [Some 1]
                [[Connection 0 (Msg (Enum result) (Value 2))],
                 [Connection 0 (Msg (Enum complete) PyNone)]]))"
proof -
  have general2: "\<not> (False \<and> (2::nat) = 1)" and general1: "\<not> (False \<and> (1::nat) = 1)"
    by simp_all
  have raised: "snd (LambdaExecutor_execute False 2 sample_pbar 20 sample_init sample_task
                [Some 1, Some 5, Some 2]
                [[Connection 0 (Msg (Enum result) (Value 2)),
                  Connection 1 (Msg (Enum exception) (Error ''boom''))]])
      = Some (Inl (Exc ''boom''))"
    by code_simp
  have finished: "snd (LambdaExecutor_execute False 1 sample_pbar 20 sample_init sample_task [Some 1]
                [[Connection 0 (Msg (Enum result) (Value 2))],
                 [Connection 0 (Msg (Enum complete) PyNone)]])
      = Some (Inr ())"
    by code_simp
  have two: "[0..<length (grouped_args 2 [Some (1::nat), Some 5, Some 2])] = [0, 1]"
    by code_simp
  have one: "[0..<length (grouped_args 1 [Some (1::nat)])] = [0]"
    by code_simp
  from exception_terminates_all [of sample_pbar "[0, 1]" "[0, 1]" 1 "''boom''" "[Connection 0 EOFError]"
      False 2 20 sample_init sample_task "[Some 1, Some 5, Some 2]"
      "[[Connection 0 (Msg (Enum result) (Value 2)),
         Connection 1 (Msg (Enum exception) (Error ''boom''))]]"]
    general2 raised
  have first: "for_ready sample_pbar [0, 1] [0, 1]
       [Connection 1 (Msg (Enum exception) (Error ''boom'')), Connection 0 EOFError]
     = ([Terminate 0, Terminate 1 :: (nat, nat, string) event], Inl (Exc ''boom''))"
    and second: "suffix [Terminate 0, Terminate 1, PbarExit]
        (fst (LambdaExecutor_execute False 2 sample_pbar 20 sample_init sample_task
                [Some 1, Some 5, Some 2]
                [[Connection 0 (Msg (Enum result) (Value 2)),
                  Connection 1 (Msg (Enum exception) (Error ''boom''))]]))"
    unfolding two by simp_all
  from exception_terminates_all [of sample_pbar "[0]" "[0]" 0 "''boom''" "[]"
      False 1 20 sample_init sample_task "[Some 1]"
      "[[Connection 0 (Msg (Enum result) (Value 2))],
        [Connection 0 (Msg (Enum complete) PyNone)]]"]
    general1 finished
  have third: "suffix [Join 0]
        (fst (LambdaExecutor_execute False 1 sample_pbar 20 sample_init sample_task [Some 1]
                [[Connection 0 (Msg (Enum result) (Value 2))],
                 [Connection 0 (Msg (Enum complete) PyNone)]]))"
    unfolding one by simp
  from first second third show ?thesis by simp
qed

text \<open>
  Claim C2 as the specification words it does not hold: the \<^verbatim>\<open>raise\<close> leaves
  \<^verbatim>\<open>_execute\<close> from inside the progress bar's block, and the \<^verbatim>\<open>join\<close> loop that follows the
  block is not reached. In this run the second worker reports an exception; both processes
  are terminated, none is joined, and the error reaches the caller.
\<close>

theorem exception_without_join_counterexample:
  "LambdaExecutor_execute False 2 sample_pbar 20 sample_init sample_task [Some 1, Some 5, Some 2]
     [[Connection 0 (Msg (Enum result) (Value 2)),
       Connection 1 (Msg (Enum exception) (Error ''boom''))]]
   = ([Spawn 0 sample_init 20 [1, 2], Spawn 1 sample_init 20 [5], Start 0, Start 1, PbarEnter,
       TaskFinished (Value 2) sample_pbar, Terminate 0, Terminate 1, PbarExit],
      Some (Inl (Exc ''boom'')))"
  by code_simp

subsection \<open>Tags outside the protocol\<close>

text \<open>
  Claim C4, as the code has it. A message whose tag is none of \<^verbatim>\<open>result\<close>, \<^verbatim>\<open>'log'\<close>,
  \<^verbatim>\<open>complete\<close> and \<^verbatim>\<open>exception\<close> matches no branch: the parent does nothing with it and goes
  on with the next ready connection, the active connections unchanged. What the parent
  refuses, with \<^verbatim>\<open>NotImplementedError\<close>, is a ready object that is not a \<^verbatim>\<open>Connection\<close>.
\<close>

theorem unknown_tag_ignored:
  assumes "msg_type \<notin> {Enum result, Str ''log'', Enum complete, Enum exception}"
  shows "(for_ready pbar processes connections (Connection c (Msg msg_type msg) # rest)
            :: ('a, 'r, 'e) event list \<times> ('e error + nat list))
           = for_ready pbar processes connections rest
       \<and> (for_ready pbar processes connections (NotConnection # rest)
            :: ('a, 'r, 'e) event list \<times> ('e error + nat list))
           = ([], Inl NotImplementedError)"
  using assms by simp

theorem unknown_tag_ignored_witness:
  "Str ''bogus'' \<notin> {Enum result, Str ''log'', Enum complete, Enum exception}
   \<and> (for_ready sample_pbar [0] [0] [Connection 0 (Msg (Str ''bogus'') PyNone),
                          Connection 0 (Msg (Enum result) (Value 2))]
        :: (nat, nat, string) event list \<times> (string error + nat list))
       = ([TaskFinished (Value 2) sample_pbar], Inr [0])"
proof -
  have tag: "Str ''bogus'' \<notin> {Enum result, Str ''log'', Enum complete, Enum exception}"
    by simp
  have "(for_ready sample_pbar [0] [0] [Connection 0 (Msg (Str ''bogus'') PyNone),
                          Connection 0 (Msg (Enum result) (Value 2))]
        :: (nat, nat, string) event list \<times> (string error + nat list))
       = for_ready sample_pbar [0] [0] [Connection 0 (Msg (Enum result) (Value 2))]"
    using unknown_tag_ignored [OF tag] by blast
  with tag show ?thesis by (simp add: emit_def)
qed

text \<open>
  Claim C4 as the specification words it does not hold: a message tagged \<^verbatim>\<open>'bogus'\<close>
  does not abort the run. The parent goes on, delivers the result that follows and returns
  after the worker has completed.
\<close>

theorem unknown_tag_not_fatal_counterexample:
  "LambdaExecutor_execute False 1 sample_pbar 20 sample_init sample_task [Some 1]
     [[Connection 0 (Msg (Str ''bogus'') PyNone)],
      [Connection 0 (Msg (Enum result) (Value 2))],
      [Connection 0 (Msg (Enum complete) PyNone)]]
   = ([Spawn 0 sample_init 20 [1], Start 0, PbarEnter, TaskFinished (Value 2) sample_pbar, PbarExit,
       Join 0],
      Some (Inr ()))"
  by code_simp

section \<open>Log records, from the workers to the parent's loggers\<close>


























end
